theory Spec2Isabelle
  imports Main "HOL-Library.Word"
begin

section \<open>The jump target manager of jumptargetmanager.h\<close>

text \<open>
  Addresses are \<^verbatim>\<open>uint64_t\<close>: 64-bit words, compared unsigned.  An
  \<^verbatim>\<open>llvm::BasicBlock *\<close> and an \<^verbatim>\<open>llvm::Instruction *\<close> are identities,
  modelled as natural numbers.
\<close>

type_synonym u64 = "64 word"
type_synonym block_id = nat
type_synonym inst_id = nat

text \<open>
  What ends a call without a result: a failed \<^verbatim>\<open>assert\<close>, the dereference
  of an iterator that points at no element, and the remainder of a division by zero.
\<close>

datatype failure = AssertionFailure | InvalidIteratorDereference | DivisionByZero

text \<open>
  A basic block of the translated function: the instructions it holds, in order,
  and the block its end falls through to, if any.
\<close>

record basic_block =
  insts :: "inst_id list"
  fallthrough :: "block_id option"

text \<open>
  The data members of \<^verbatim>\<open>JumpTargetManager\<close>.  A \<^verbatim>\<open>std::map\<close> is the list
  of its entries in iteration order, which is ascending key order (\<open>ordered_map\<close>
  below is the container's invariant).  \<open>TheFunction\<close> is the list of the basic
  blocks of the translated function; a block's identity is its position, and blocks
  are only ever added at the end.
  \<^verbatim>\<open>SourceArchitecture.instructionAlignment()\<close> belongs to a class that is not
  part of the header; its value is the field \<open>instructionAlignment\<close>.
\<close>

record jtm =
  instructionAlignment :: u64
  TheFunction :: "basic_block list"
  OriginalInstructionAddresses :: "(u64 \<times> inst_id) list"
  JumpTargets :: "(u64 \<times> block_id) list"
  Unexplored :: "(u64 \<times> block_id) list"
  ExecutableRanges :: "(u64 \<times> u64) list"
  Visited :: "block_id set"
  ReliablePCs :: "u64 set"

definition ordered_map :: "(u64 \<times> 'v) list \<Rightarrow> bool" where
  "ordered_map m = sorted_wrt (<) (map fst m)"

text \<open>\<^verbatim>\<open>std::map::count\<close>: 1 when the key is present, 0 otherwise.\<close>

definition count_map :: "(u64 \<times> 'v) list \<Rightarrow> u64 \<Rightarrow> nat" where
  "count_map m k = (if map_of m k = None then 0 else 1)"

text \<open>
  \<^verbatim>\<open>std::map::lower_bound\<close>: the position of the first entry whose key is not
  less than \<open>k\<close>; the number of entries (\<^verbatim>\<open>end()\<close>) when there is none.
\<close>

definition lower_bound :: "(u64 \<times> 'v) list \<Rightarrow> u64 \<Rightarrow> nat" where
  "lower_bound m k = length (takeWhile (\<lambda>e. fst e < k) m)"

subsection \<open>Executable ranges\<close>

fun isExecutableRange_loop :: "(u64 \<times> u64) list \<Rightarrow> u64 \<Rightarrow> u64 \<Rightarrow> bool" where
  "isExecutableRange_loop [] Start End = False"
| "isExecutableRange_loop (Rng # Rest) Start End =
     (if fst Rng \<le> Start \<and> Start < snd Rng \<and> fst Rng \<le> End \<and> End < snd Rng
      then True
      else isExecutableRange_loop Rest Start End)"

definition isExecutableRange :: "jtm \<Rightarrow> u64 \<Rightarrow> u64 \<Rightarrow> bool" where
  "isExecutableRange s Start End = isExecutableRange_loop (ExecutableRanges s) Start End"

fun isExecutableAddress_loop :: "(u64 \<times> u64) list \<Rightarrow> u64 \<Rightarrow> bool" where
  "isExecutableAddress_loop [] PC = False"
| "isExecutableAddress_loop (Rng # Rest) PC =
     (if fst Rng \<le> PC \<and> PC < snd Rng then True else isExecutableAddress_loop Rest PC)"

definition isExecutableAddress :: "jtm \<Rightarrow> u64 \<Rightarrow> bool" where
  "isExecutableAddress s PC = isExecutableAddress_loop (ExecutableRanges s) PC"

subsection \<open>Alignment and candidates for exploration\<close>

text \<open>
  \<^verbatim>\<open>PC % SourceArchitecture.instructionAlignment() == 0\<close>.  The remainder of a
  division by zero has no value in C++.
\<close>

definition isInstructionAligned :: "jtm \<Rightarrow> u64 \<Rightarrow> failure + bool" where
  "isInstructionAligned s PC =
     (if instructionAlignment s = 0 then Inl DivisionByZero
      else Inr (PC mod instructionAlignment s = 0))"

text \<open>
  \<^verbatim>\<open>isExecutableAddress(PC) && isInstructionAligned(PC) && !JumpTargets.count(PC)\<close>,
  evaluated left to right: the alignment is not computed for an address that is
  not executable.
\<close>

definition isInterestingPC :: "jtm \<Rightarrow> u64 \<Rightarrow> failure + bool" where
  "isInterestingPC s PC =
     (if \<not> isExecutableAddress s PC then Inr False
      else case isInstructionAligned s PC of
             Inl e \<Rightarrow> Inl e
           | Inr aligned \<Rightarrow>
               if \<not> aligned then Inr False else Inr (count_map (JumpTargets s) PC = 0))"

definition isJumpTarget :: "jtm \<Rightarrow> u64 \<Rightarrow> bool" where
  "isJumpTarget s PC = (count_map (JumpTargets s) PC \<noteq> 0)"

subsection \<open>Reliable program counters\<close>

text \<open>
  \<open>It\<close> is the position \<^verbatim>\<open>JumpTargets.lower_bound(PC)\<close>.  When it is
  \<^verbatim>\<open>end()\<close> the code reads \<^verbatim>\<open>JumpTargets.rbegin()->first\<close>, which on an
  empty map dereferences \<^verbatim>\<open>rend()\<close>, and asserts \<^verbatim>\<open>BBPC < PC\<close>.  Otherwise,
  when the key found is not \<open>PC\<close>, it asserts \<^verbatim>\<open>It != JumpTargets.begin()\<close>
  and steps back one entry.
\<close>

definition isReliablePC :: "jtm \<Rightarrow> u64 \<Rightarrow> failure + bool" where
  "isReliablePC s PC =
     (let It = lower_bound (JumpTargets s) PC in
      if It = length (JumpTargets s) then
        (if JumpTargets s = [] then Inl InvalidIteratorDereference
         else let BBPC = fst (last (JumpTargets s)) in
              if BBPC < PC then Inr (BBPC \<in> ReliablePCs s) else Inl AssertionFailure)
      else
        (let BBPC = fst (JumpTargets s ! It) in
         if BBPC \<noteq> PC then
           (if It \<noteq> 0 then Inr (fst (JumpTargets s ! (It - 1)) \<in> ReliablePCs s)
            else Inl AssertionFailure)
         else Inr (BBPC \<in> ReliablePCs s)))"

section \<open>The operations whose bodies are not in the header\<close>

text \<open>
  The header declares \<^verbatim>\<open>registerBlock\<close>, \<^verbatim>\<open>unvisit\<close>,
  \<^verbatim>\<open>getBlockAt\<close> and \<^verbatim>\<open>findCodePointers\<close> without their bodies.  The
  definitions of this section follow the specification (sections 4.1 and 4.4) over
  the data members above.
\<close>

text \<open>\<^verbatim>\<open>Map[Key] = Value\<close> on a \<^verbatim>\<open>std::map\<close>: insert in key order, or overwrite.\<close>

fun map_insert :: "u64 \<Rightarrow> 'v \<Rightarrow> (u64 \<times> 'v) list \<Rightarrow> (u64 \<times> 'v) list" where
  "map_insert k v [] = [(k, v)]"
| "map_insert k v (e # es) =
     (if k < fst e then (k, v) # e # es
      else if k = fst e then (k, v) # es
      else e # map_insert k v es)"

text \<open>
  Modelled from the spec: the body of \<^verbatim>\<open>registerBlock\<close> is missing.  It saves
  ``the PC-BasicBlock association'', the jump-target entry of the address.
\<close>

definition registerBlock :: "u64 \<Rightarrow> block_id \<Rightarrow> jtm \<Rightarrow> jtm" where
  "registerBlock PC Block s = s\<lparr>JumpTargets := map_insert PC Block (JumpTargets s)\<rparr>"

text \<open>
  Modelled from the spec: the body of \<^verbatim>\<open>unvisit\<close> is missing.  It ``clears the
  visited bit'' of the block.
\<close>

definition unvisit :: "block_id \<Rightarrow> jtm \<Rightarrow> jtm" where
  "unvisit BB s = s\<lparr>Visited := Visited s - {BB}\<rparr>"

text \<open>
  The block that holds an instruction, and the instruction's position in it
  (\<^verbatim>\<open>Instruction::getParent()\<close> and the instruction's iterator).
\<close>

fun index_of :: "'a \<Rightarrow> 'a list \<Rightarrow> nat option" where
  "index_of x [] = None"
| "index_of x (y # ys) = (if x = y then Some 0 else map_option Suc (index_of x ys))"

fun getParent_from :: "nat \<Rightarrow> basic_block list \<Rightarrow> inst_id \<Rightarrow> (block_id \<times> nat) option" where
  "getParent_from n [] i = None"
| "getParent_from n (B # Bs) i =
     (case index_of i (insts B) of
        Some k \<Rightarrow> Some (n, k)
      | None \<Rightarrow> getParent_from (Suc n) Bs i)"

definition getParent :: "jtm \<Rightarrow> inst_id \<Rightarrow> (block_id \<times> nat) option" where
  "getParent s i = getParent_from 0 (TheFunction s) i"

text \<open>
  Modelled from the spec: the place where an address ``falls strictly inside an
  already-translated block''.  \<open>OriginalInstructionAddresses\<close> holds, by the
  header's comment, ``the association between a PC and the last generated
  instruction for the previous instruction'', so the operations of the address
  start right after the instruction found there; the address is strictly inside
  when operations follow.
\<close>

definition splitOffset :: "jtm \<Rightarrow> u64 \<Rightarrow> (block_id \<times> nat) option" where
  "splitOffset s PC =
     (case map_of (OriginalInstructionAddresses s) PC of
        None \<Rightarrow> None
      | Some i \<Rightarrow>
          (case getParent s i of
             None \<Rightarrow> None
           | Some (B, k) \<Rightarrow>
               if Suc k < length (insts (TheFunction s ! B)) then Some (B, Suc k) else None))"

text \<open>
  Modelled from the spec: the split.  ``Operations before the offset remain,
  falling through to a new block; operations at/after the offset move into the new
  block''.  The new block is added at the end of the function.
\<close>

definition splitBasicBlock :: "block_id \<Rightarrow> nat \<Rightarrow> basic_block list \<Rightarrow> basic_block list" where
  "splitBasicBlock B k Bs =
     Bs[B := \<lparr>insts = take k (insts (Bs ! B)), fallthrough = Some (length Bs)\<rparr>]
       @ [\<lparr>insts = drop k (insts (Bs ! B)), fallthrough = fallthrough (Bs ! B)\<rparr>]"

text \<open>
  Modelled from the spec: the body of \<^verbatim>\<open>getBlockAt\<close> (the spec's
  \<^verbatim>\<open>materialize\<close>) is missing.  The spec's four steps, in its order:
  \<^enum> none if the address is outside every executable range or violates instruction
    alignment;
  \<^enum> an address that exactly matches a registered entry returns it; if
    \<open>Reliable\<close> and the entry is unreliable, it is promoted and its visited bit
    cleared;
  \<^enum> an address strictly inside an already-translated block splits the block, and
    the new block becomes the jump-target entry;
  \<^enum> otherwise a fresh placeholder (an empty block) is created and registered; it
    joins the queue of addresses awaiting translation, kept in ascending address
    order.

  The result is \<open>None\<close> for \<^verbatim>\<open>nullptr\<close>.
\<close>

definition getBlockAt :: "u64 \<Rightarrow> bool \<Rightarrow> jtm \<Rightarrow> failure + (block_id option \<times> jtm)" where
  "getBlockAt PC Reliable s =
     (if \<not> isExecutableAddress s PC then Inr (None, s)
      else case isInstructionAligned s PC of
        Inl e \<Rightarrow> Inl e
      | Inr aligned \<Rightarrow>
          if \<not> aligned then Inr (None, s)
          else
            (case map_of (JumpTargets s) PC of
               Some B \<Rightarrow>
                 if Reliable \<and> PC \<notin> ReliablePCs s
                 then Inr (Some B, unvisit B (s\<lparr>ReliablePCs := insert PC (ReliablePCs s)\<rparr>))
                 else Inr (Some B, s)
             | None \<Rightarrow>
                 (let NewBlock = length (TheFunction s);
                      s1 = (if Reliable then s\<lparr>ReliablePCs := insert PC (ReliablePCs s)\<rparr>
                            else s)
                  in case splitOffset s PC of
                       Some (B, k) \<Rightarrow>
                         Inr (Some NewBlock,
                              registerBlock PC NewBlock
                                (s1\<lparr>TheFunction := splitBasicBlock B k (TheFunction s)\<rparr>))
                     | None \<Rightarrow>
                         Inr (Some NewBlock,
                              registerBlock PC NewBlock
                                (s1\<lparr>TheFunction :=
                                      TheFunction s @ [\<lparr>insts = [], fallthrough = None\<rparr>],
                                    Unexplored :=
                                      insort_key fst (PC, NewBlock) (Unexplored s)\<rparr>)))))"

text \<open>
  Modelled from the spec: the body of \<^verbatim>\<open>findCodePointers\<close> is missing.
  \<open>Values\<close> are the integers read from a segment's bytes, in scan order.  The
  harvester looks ``for integer values that are aligned, inside an executable
  range, and not already known, feeding each into
  \<^verbatim>\<open>materialize(address, reliable=false)\<close>''; the test is \<open>isInterestingPC\<close>.
\<close>

fun findCodePointers :: "u64 list \<Rightarrow> jtm \<Rightarrow> failure + jtm" where
  "findCodePointers [] s = Inr s"
| "findCodePointers (Value # Values) s =
     (case isInterestingPC s Value of
        Inl e \<Rightarrow> Inl e
      | Inr interesting \<Rightarrow>
          if \<not> interesting then findCodePointers Values s
          else
            (case getBlockAt Value False s of
               Inl e \<Rightarrow> Inl e
             | Inr (B, s') \<Rightarrow> findCodePointers Values s'))"

section \<open>Auxiliary predicates and example states\<close>

text \<open>An address that passes the two checks of validity.\<close>

definition validPC :: "jtm \<Rightarrow> u64 \<Rightarrow> bool" where
  "validPC s PC \<longleftrightarrow> isExecutableAddress s PC \<and> isInstructionAligned s PC = Inr True"

text \<open>
  What a harvest of \<open>Values\<close> that leads from \<open>s\<close> to \<open>s'\<close> has done to the
  registry.
\<close>

definition harvested :: "u64 list \<Rightarrow> jtm \<Rightarrow> jtm \<Rightarrow> bool" where
  "harvested Values s s' \<longleftrightarrow>
     (\<forall>PC. isJumpTarget s' PC \<longrightarrow> isJumpTarget s PC \<or> (PC \<in> set Values \<and> validPC s PC)) \<and>
     (\<forall>PC. PC \<in> set Values \<and> validPC s PC \<longrightarrow> isJumpTarget s' PC) \<and>
     (\<forall>PC. isJumpTarget s PC \<longrightarrow> map_of (JumpTargets s') PC = map_of (JumpTargets s) PC) \<and>
     ExecutableRanges s' = ExecutableRanges s \<and>
     instructionAlignment s' = instructionAlignment s \<and>
     ReliablePCs s' = ReliablePCs s"

text \<open>
  One executable segment \<^verbatim>\<open>[0x1000, 0x1020)\<close>, instructions aligned to 4 bytes,
  nothing registered yet.
\<close>

definition one_segment :: jtm where
  "one_segment =
     \<lparr>instructionAlignment = 4, TheFunction = [], OriginalInstructionAddresses = [],
      JumpTargets = [], Unexplored = [], ExecutableRanges = [(0x1000, 0x1020)],
      Visited = {}, ReliablePCs = {}\<rparr>"

text \<open>
  The same segment with two translated blocks registered at \<^verbatim>\<open>0x1000\<close> (reliable)
  and \<^verbatim>\<open>0x1010\<close> (not reliable).
\<close>

definition two_targets :: jtm where
  "two_targets =
     \<lparr>instructionAlignment = 4,
      TheFunction = [\<lparr>insts = [0, 1], fallthrough = Some 1\<rparr>,
                     \<lparr>insts = [2, 3], fallthrough = None\<rparr>],
      OriginalInstructionAddresses = [(0x1004, 0), (0x1010, 1), (0x1014, 2)],
      JumpTargets = [(0x1000, 0), (0x1010, 1)], Unexplored = [],
      ExecutableRanges = [(0x1000, 0x1020)],
      Visited = {}, ReliablePCs = {0x1000}\<rparr>"

text \<open>Two executable segments, the first inside the second.\<close>

definition nested_ranges :: jtm where
  "nested_ranges =
     \<lparr>instructionAlignment = 4, TheFunction = [], OriginalInstructionAddresses = [],
      JumpTargets = [], Unexplored = [],
      ExecutableRanges = [(0x1000, 0x1010), (0x1000, 0x1020)],
      Visited = {}, ReliablePCs = {}\<rparr>"

section \<open>Executable ranges and addresses\<close>

lemma isExecutableRange_loop_iff:
  "isExecutableRange_loop rs Start End \<longleftrightarrow>
     (\<exists>r\<in>set rs. fst r \<le> Start \<and> Start < snd r \<and> fst r \<le> End \<and> End < snd r)"
  by (induction rs) auto

lemma isExecutableAddress_loop_iff:
  "isExecutableAddress_loop rs PC \<longleftrightarrow> (\<exists>r\<in>set rs. fst r \<le> PC \<and> PC < snd r)"
  by (induction rs) auto

text \<open>
  C9, as the code has it.  \<open>isExecutableRange\<close> returns true exactly when one
  executable range \<open>[first, second)\<close> has \<open>first \<le> Start < second\<close> and
  \<open>first \<le> End < second\<close>, the upper comparison on \<open>End\<close> being strict.  So for
  a half-open range \<open>[Start, End)\<close> inside an executable range that ends exactly at
  \<open>End\<close>, every address it contains satisfies \<open>isExecutableAddress\<close>, and the
  range is reported as executable only if some executable range of the table
  contains \<open>Start\<close> and reaches strictly beyond \<open>End\<close>; otherwise it is reported
  as not executable.
\<close>

theorem isExecutableRange_strict_end:
  "(isExecutableRange s Start End \<longleftrightarrow>
      (\<exists>r\<in>set (ExecutableRanges s).
          fst r \<le> Start \<and> Start < snd r \<and> fst r \<le> End \<and> End < snd r)) \<and>
   ((first, End) \<in> set (ExecutableRanges s) \<and> first \<le> Start \<and> Start \<le> End \<longrightarrow>
      (\<forall>a. Start \<le> a \<and> a < End \<longrightarrow> isExecutableAddress s a) \<and>
      (isExecutableRange s Start End \<longleftrightarrow>
         (\<exists>r\<in>set (ExecutableRanges s). fst r \<le> Start \<and> End < snd r)))"
  unfolding isExecutableRange_def isExecutableAddress_def
    isExecutableRange_loop_iff isExecutableAddress_loop_iff
  by force

theorem isExecutableRange_strict_end_witness:
  "\<not> isExecutableRange one_segment 0x1008 0x1020 \<and>
   isExecutableAddress one_segment 0x101F \<and>
   isExecutableRange one_segment 0x1008 0x101F"
proof -
  have h: "(0x1000, 0x1020) \<in> set (ExecutableRanges one_segment) \<and>
      (0x1000 :: u64) \<le> 0x1008 \<and> (0x1008 :: u64) \<le> 0x1020"
    by (simp add: one_segment_def)
  have n: "\<not> (\<exists>r\<in>set (ExecutableRanges one_segment). fst r \<le> 0x1008 \<and> 0x1020 < snd r)"
    by (simp add: one_segment_def)
  have i: "\<exists>r\<in>set (ExecutableRanges one_segment).
      fst r \<le> 0x1008 \<and> 0x1008 < snd r \<and> fst r \<le> 0x101F \<and> 0x101F < snd r"
    by (simp add: one_segment_def)
  have a: "(0x1008 :: u64) \<le> 0x101F \<and> (0x101F :: u64) < 0x1020" by simp
  from isExecutableRange_strict_end [of one_segment "0x1008" "0x1020" "0x1000"] h n a
  have "\<not> isExecutableRange one_segment 0x1008 0x1020"
    and "isExecutableAddress one_segment 0x101F"
    by blast+
  moreover from isExecutableRange_strict_end [of one_segment "0x1008" "0x101F" "0x1000"] i
  have "isExecutableRange one_segment 0x1008 0x101F" by blast
  ultimately show ?thesis by simp
qed

text \<open>
  The range \<^verbatim>\<open>[0x1000, 0x1010)\<close> ends where an executable range of the table
  ends, and is reported as executable: a second range covers it.
\<close>

theorem isExecutableRange_nested_counterexample:
  "(0x1000, 0x1010) \<in> set (ExecutableRanges nested_ranges) \<and>
   isExecutableRange nested_ranges 0x1000 0x1010"
  by (simp add: nested_ranges_def isExecutableRange_def)

section \<open>Reliable program counters\<close>

lemma lower_bound_zero:
  "\<forall>k\<in>fst ` set m. PC \<le> k \<Longrightarrow> lower_bound m PC = 0"
  by (cases m) (auto simp: lower_bound_def)

lemma lower_bound_le: "lower_bound m PC \<le> length m"
  by (simp add: lower_bound_def length_takeWhile_le)

lemma before_lower_bound:
  assumes "i < lower_bound m PC"
  shows "fst (m ! i) < PC"
proof -
  from assms
  have "takeWhile (\<lambda>e. fst e < PC) m ! i \<in> set (takeWhile (\<lambda>e. fst e < PC) m)"
    by (simp add: lower_bound_def)
  then have "fst (takeWhile (\<lambda>e. fst e < PC) m ! i) < PC"
    by (rule set_takeWhileD [THEN conjunct2])
  with assms show ?thesis by (simp add: lower_bound_def takeWhile_nth)
qed

lemma at_lower_bound:
  "lower_bound m PC < length m \<Longrightarrow> PC \<le> fst (m ! lower_bound m PC)"
  using nth_length_takeWhile [of "\<lambda>e. fst e < PC" m]
  by (simp add: lower_bound_def not_less)

lemma ordered_map_nth:
  "ordered_map m \<Longrightarrow> i < j \<Longrightarrow> j < length m \<Longrightarrow> fst (m ! i) < fst (m ! j)"
  by (simp add: ordered_map_def sorted_wrt_iff_nth_less)

lemma ordered_map_nth_le:
  "ordered_map m \<Longrightarrow> i \<le> j \<Longrightarrow> j < length m \<Longrightarrow> fst (m ! i) \<le> fst (m ! j)"
  using ordered_map_nth [of m i j] by (cases "i = j") auto

lemma set_map_insert: "fst ` set (map_insert k v m) = insert k (fst ` set m)"
  by (induction m) auto

text \<open>The insertion keeps the entries in ascending key order.\<close>

lemma ordered_map_map_insert:
  "ordered_map m \<Longrightarrow> ordered_map (map_insert k v m)"
proof (induction m)
  case Nil
  then show ?case by (simp add: ordered_map_def)
next
  case (Cons e es)
  then have es: "ordered_map es" and lt: "\<forall>x\<in>set es. fst e < fst x"
    by (auto simp: ordered_map_def)
  show ?case
  proof (cases "k < fst e")
    case True
    with Cons.prems lt show ?thesis by (auto simp: ordered_map_def)
  next
    case False
    show ?thesis
    proof (cases "k = fst e")
      case True
      with Cons.prems show ?thesis by (auto simp: ordered_map_def)
    next
      case ne: False
      with False have "fst e < k" by simp
      moreover from Cons.IH [OF es] have "ordered_map (map_insert k v es)" .
      moreover have "fst ` set (map_insert k v es) = insert k (fst ` set es)"
        by (rule set_map_insert)
      ultimately show ?thesis using False ne lt
        by (auto simp: ordered_map_def)
    qed
  qed
qed

lemma getBlockAt_ordered:
  assumes "ordered_map (JumpTargets s)" "getBlockAt PC Reliable s = Inr (B, s')"
  shows "ordered_map (JumpTargets s')"
  using assms
  by (auto simp: getBlockAt_def registerBlock_def unvisit_def Let_def ordered_map_map_insert
      split: if_splits sum.splits option.splits prod.splits)

text \<open>
  C10.  \<open>isReliablePC\<close> needs a registered entry at an address at or before
  \<open>PC\<close>.  When there is none it does not return false: on an empty map it
  dereferences the reverse iterator of an empty container, and when \<open>PC\<close> is
  below the smallest registered address the assertion
  \<^verbatim>\<open>It != JumpTargets.begin()\<close> fails.
\<close>

theorem isReliablePC_without_predecessor:
  assumes "\<forall>k\<in>fst ` set (JumpTargets s). PC < k"
  shows "isReliablePC s PC =
           Inl (if JumpTargets s = [] then InvalidIteratorDereference else AssertionFailure)"
proof (cases "JumpTargets s")
  case Nil
  then show ?thesis by (simp add: isReliablePC_def lower_bound_def)
next
  case (Cons e es)
  from assms have lb: "lower_bound (JumpTargets s) PC = 0"
    by (intro lower_bound_zero) auto
  from assms Cons have "PC < fst e" by simp
  then have "fst (JumpTargets s ! 0) \<noteq> PC" using Cons by auto
  with lb Cons show ?thesis by (simp add: isReliablePC_def)
qed

theorem isReliablePC_without_predecessor_witness:
  "isReliablePC one_segment 0x1000 = Inl InvalidIteratorDereference \<and>
   isReliablePC two_targets 0x0FFC = Inl AssertionFailure"
proof -
  have e: "\<forall>k\<in>fst ` set (JumpTargets one_segment). 0x1000 < k"
    by (simp add: one_segment_def)
  have b: "\<forall>k\<in>fst ` set (JumpTargets two_targets). 0x0FFC < k"
    by (simp add: two_targets_def)
  have "JumpTargets one_segment = []" "JumpTargets two_targets \<noteq> []"
    by (simp_all add: one_segment_def two_targets_def)
  with isReliablePC_without_predecessor [OF e] isReliablePC_without_predecessor [OF b]
  show ?thesis by simp
qed

text \<open>
  C2.  When the registry holds an entry at an address at or before \<open>PC\<close>,
  \<open>isReliablePC\<close> returns, and its result is whether the greatest registered
  address at or before \<open>PC\<close> is a reliable one.
\<close>

theorem isReliablePC_inherits:
  assumes ord: "ordered_map (JumpTargets s)"
    and ex: "\<exists>k\<in>fst ` set (JumpTargets s). k \<le> PC"
  shows "isReliablePC s PC =
           Inr (Max {k \<in> fst ` set (JumpTargets s). k \<le> PC} \<in> ReliablePCs s)"
proof -
  define m where "m = JumpTargets s"
  define n where "n = lower_bound m PC"
  define A where "A = {k \<in> fst ` set m. k \<le> PC}"
  have fin: "finite A" by (simp add: A_def)
  from ex obtain i0 where i0: "i0 < length m" "fst (m ! i0) \<le> PC"
    by (auto simp: m_def in_set_conv_nth)
  then have ne: "m \<noteq> []" by auto
  have ordm: "ordered_map m" using ord by (simp add: m_def)
  have A_nth: "\<And>y. y \<in> A \<Longrightarrow> \<exists>i<length m. y = fst (m ! i) \<and> y \<le> PC"
    by (fastforce simp: A_def in_set_conv_nth)
  have nth_A: "\<And>i. i < length m \<Longrightarrow> fst (m ! i) \<le> PC \<Longrightarrow> fst (m ! i) \<in> A"
    by (simp add: A_def)
  have nle: "n \<le> length m" by (simp add: n_def lower_bound_le)
  then consider (atend) "n = length m"
    | (exact) "n < length m" "fst (m ! n) = PC"
    | (inside) "n < length m" "fst (m ! n) \<noteq> PC"
    by (metis le_neq_implies_less)
  then show ?thesis
  proof cases
    case atend
    have lt: "fst (last m) < PC"
      using before_lower_bound [of "length m - 1" m PC] ne atend
      by (simp add: n_def last_conv_nth)
    have "Max A = fst (last m)"
    proof (rule Max_eqI [OF fin])
      fix y assume "y \<in> A"
      then obtain i where "i < length m" "y = fst (m ! i)" using A_nth by blast
      then show "y \<le> fst (last m)"
        using ordered_map_nth_le [OF ordm, of i "length m - 1"] ne
        by (simp add: last_conv_nth)
    next
      show "fst (last m) \<in> A" using lt ne by (simp add: A_def)
    qed
    with atend ne lt show ?thesis
      by (simp add: isReliablePC_def Let_def m_def [symmetric] n_def [symmetric] A_def)
  next
    case exact
    have "Max A = PC"
    proof (rule Max_eqI [OF fin])
      show "PC \<in> A" using nth_A [of n] exact by simp
    qed (simp add: A_def)
    with exact show ?thesis
      by (simp add: isReliablePC_def Let_def m_def [symmetric] n_def [symmetric] A_def)
  next
    case inside
    have gt: "PC < fst (m ! n)"
      using at_lower_bound [of m PC] inside by (simp add: n_def)
    have below: "\<And>i. i < length m \<Longrightarrow> fst (m ! i) \<le> PC \<Longrightarrow> i < n"
    proof (rule ccontr)
      fix i assume i: "i < length m" "fst (m ! i) \<le> PC" "\<not> i < n"
      then have "fst (m ! n) \<le> fst (m ! i)"
        using ordered_map_nth_le [OF ordm, of n i] by simp
      with gt i show False by simp
    qed
    from below [OF i0] have pos: "n \<noteq> 0" by simp
    have "Max A = fst (m ! (n - 1))"
    proof (rule Max_eqI [OF fin])
      fix y assume "y \<in> A"
      then obtain i where i: "i < length m" "y = fst (m ! i)" "y \<le> PC" using A_nth by blast
      then have "i < n" using below by simp
      then show "y \<le> fst (m ! (n - 1))"
        using ordered_map_nth_le [OF ordm, of i "n - 1"] inside i by simp
    next
      have "fst (m ! (n - 1)) < PC"
        using before_lower_bound [of "n - 1" m PC] pos by (simp add: n_def)
      then show "fst (m ! (n - 1)) \<in> A"
        using nth_A [of "n - 1"] inside by simp
    qed
    with inside pos show ?thesis
      by (simp add: isReliablePC_def Let_def m_def [symmetric] n_def [symmetric] A_def)
  qed
qed

theorem isReliablePC_inherits_witness:
  "isReliablePC two_targets 0x1004 = Inr True \<and> isReliablePC two_targets 0x1014 = Inr False"
proof -
  have o: "ordered_map (JumpTargets two_targets)"
    by (simp add: two_targets_def ordered_map_def)
  have e1: "\<exists>k\<in>fst ` set (JumpTargets two_targets). k \<le> 0x1004"
    and e2: "\<exists>k\<in>fst ` set (JumpTargets two_targets). k \<le> 0x1014"
    by (simp_all add: two_targets_def)
  have s1: "{k \<in> fst ` set (JumpTargets two_targets). k \<le> 0x1004} = {0x1000}"
    and s2: "{k \<in> fst ` set (JumpTargets two_targets). k \<le> 0x1014} = {0x1000, 0x1010}"
    by (auto simp: two_targets_def)
  have r: "ReliablePCs two_targets = {0x1000}" by (simp add: two_targets_def)
  from isReliablePC_inherits [OF o e1] isReliablePC_inherits [OF o e2]
  show ?thesis by (simp add: s1 s2 r)
qed

section \<open>Invalid addresses\<close>

text \<open>
  C3.  For an address outside every executable range, or one whose remainder
  modulo the instruction alignment is not zero, \<open>getBlockAt\<close> returns the absent
  result, whatever \<open>Reliable\<close> is, and leaves the manager as it was.
\<close>

theorem getBlockAt_invalid_address:
  assumes "(\<forall>r\<in>set (ExecutableRanges s). \<not> (fst r \<le> PC \<and> PC < snd r)) \<or>
           (instructionAlignment s \<noteq> 0 \<and> PC mod instructionAlignment s \<noteq> 0)"
  shows "getBlockAt PC Reliable s = Inr (None, s)"
  using assms
  by (auto simp: getBlockAt_def isExecutableAddress_def isExecutableAddress_loop_iff
      isInstructionAligned_def)

theorem getBlockAt_invalid_address_witness:
  "getBlockAt 0x2000 True one_segment = Inr (None, one_segment) \<and>
   getBlockAt 0x1002 False one_segment = Inr (None, one_segment)"
proof -
  have outside: "\<forall>r\<in>set (ExecutableRanges one_segment). \<not> (fst r \<le> 0x2000 \<and> 0x2000 < snd r)"
    by (simp add: one_segment_def)
  have misaligned: "instructionAlignment one_segment \<noteq> 0 \<and>
      0x1002 mod instructionAlignment one_segment \<noteq> 0"
    by (simp add: one_segment_def)
  from getBlockAt_invalid_address [of one_segment "0x2000" True]
    getBlockAt_invalid_address [of one_segment "0x1002" False] outside misaligned
  show ?thesis by blast
qed

section \<open>Harvesting code pointers\<close>

lemma map_of_map_insert: "map_of (map_insert k v m) = (map_of m)(k \<mapsto> v)"
  by (induction m) (auto simp: fun_eq_iff)

lemma isJumpTarget_iff: "isJumpTarget s PC \<longleftrightarrow> map_of (JumpTargets s) PC \<noteq> None"
  by (simp add: isJumpTarget_def count_map_def)

lemma isInterestingPC_eq:
  "instructionAlignment s \<noteq> 0 \<Longrightarrow>
   isInterestingPC s PC = Inr (validPC s PC \<and> \<not> isJumpTarget s PC)"
  by (simp add: isInterestingPC_def isInstructionAligned_def isJumpTarget_def validPC_def)

lemma validPC_cong:
  "ExecutableRanges s' = ExecutableRanges s \<Longrightarrow>
   instructionAlignment s' = instructionAlignment s \<Longrightarrow> validPC s' = validPC s"
  by (simp add: validPC_def isExecutableAddress_def isInstructionAligned_def fun_eq_iff)

text \<open>
  A valid address that is not registered yet gets an entry; nothing else of what
  the validity checks and \<open>isReliablePC\<close> read changes.
\<close>

lemma getBlockAt_new_unreliable:
  assumes valid: "validPC s PC"
    and new: "\<not> isJumpTarget s PC"
  shows "\<exists>B s'. getBlockAt PC False s = Inr (Some B, s') \<and>
           map_of (JumpTargets s') = (map_of (JumpTargets s))(PC \<mapsto> B) \<and>
           ExecutableRanges s' = ExecutableRanges s \<and>
           instructionAlignment s' = instructionAlignment s \<and>
           ReliablePCs s' = ReliablePCs s"
proof -
  from new have none: "map_of (JumpTargets s) PC = None" by (simp add: isJumpTarget_iff)
  from valid have ex: "isExecutableAddress s PC" and ali: "isInstructionAligned s PC = Inr True"
    by (simp_all add: validPC_def)
  show ?thesis
  proof (cases "splitOffset s PC")
    case None
    with ex ali none show ?thesis
      by (simp add: getBlockAt_def registerBlock_def map_of_map_insert Let_def)
  next
    case (Some a)
    then obtain B k where "splitOffset s PC = Some (B, k)" by (cases a) auto
    with ex ali none show ?thesis
      by (simp add: getBlockAt_def registerBlock_def map_of_map_insert Let_def)
  qed
qed

lemma harvested_skip:
  assumes "harvested Vs s s'" "\<not> (validPC s V \<and> \<not> isJumpTarget s V)"
  shows "harvested (V # Vs) s s'"
proof -
  have "validPC s V \<longrightarrow> isJumpTarget s' V"
    using assms by (auto simp: harvested_def isJumpTarget_iff)
  with assms(1) show ?thesis unfolding harvested_def by (simp (no_asm_use)) metis
qed

lemma harvested_step:
  assumes h: "harvested Vs s1 s'"
    and valid: "validPC s V" and new: "\<not> isJumpTarget s V"
    and jt: "map_of (JumpTargets s1) = (map_of (JumpTargets s))(V \<mapsto> B)"
    and ex: "ExecutableRanges s1 = ExecutableRanges s"
    and al: "instructionAlignment s1 = instructionAlignment s"
    and re: "ReliablePCs s1 = ReliablePCs s"
  shows "harvested (V # Vs) s s'"
proof -
  have jt1: "\<And>PC. isJumpTarget s1 PC \<longleftrightarrow> isJumpTarget s PC \<or> PC = V"
    by (auto simp: isJumpTarget_iff jt)
  have v1: "validPC s1 = validPC s" using ex al by (rule validPC_cong)
  have keep: "\<And>PC. isJumpTarget s1 PC \<Longrightarrow>
      map_of (JumpTargets s') PC = map_of (JumpTargets s1) PC"
    using h by (simp add: harvested_def)
  have a: "\<And>PC. isJumpTarget s' PC \<Longrightarrow>
      isJumpTarget s PC \<or> (PC \<in> set (V # Vs) \<and> validPC s PC)"
  proof -
    fix PC assume "isJumpTarget s' PC"
    with h have "isJumpTarget s1 PC \<or> (PC \<in> set Vs \<and> validPC s1 PC)"
      by (simp add: harvested_def)
    with valid show "isJumpTarget s PC \<or> (PC \<in> set (V # Vs) \<and> validPC s PC)"
      by (auto simp: jt1 v1)
  qed
  have v: "isJumpTarget s' V"
    using keep [of V] jt1 [of V] by (simp add: isJumpTarget_iff)
  have b: "\<And>PC. PC \<in> set (V # Vs) \<and> validPC s PC \<Longrightarrow> isJumpTarget s' PC"
  proof -
    fix PC assume p: "PC \<in> set (V # Vs) \<and> validPC s PC"
    show "isJumpTarget s' PC"
    proof (cases "PC = V")
      case True
      with v show ?thesis by simp
    next
      case False
      with p have "PC \<in> set Vs \<and> validPC s1 PC" by (simp add: v1)
      with h show ?thesis by (simp add: harvested_def)
    qed
  qed
  have c: "\<And>PC. isJumpTarget s PC \<Longrightarrow>
      map_of (JumpTargets s') PC = map_of (JumpTargets s) PC"
  proof -
    fix PC assume j: "isJumpTarget s PC"
    with new have "PC \<noteq> V" by auto
    with j keep [of PC] jt1 [of PC]
    show "map_of (JumpTargets s') PC = map_of (JumpTargets s) PC"
      by (simp add: jt)
  qed
  have d: "ExecutableRanges s' = ExecutableRanges s"
    "instructionAlignment s' = instructionAlignment s"
    "ReliablePCs s' = ReliablePCs s"
    using h ex al re by (simp_all add: harvested_def)
  show ?thesis unfolding harvested_def using a b c d by blast
qed

lemma findCodePointers_harvested:
  "instructionAlignment s \<noteq> 0 \<Longrightarrow>
   \<exists>s'. findCodePointers Values s = Inr s' \<and> harvested Values s s'"
proof (induction Values arbitrary: s)
  case Nil
  then show ?case by (simp add: harvested_def)
next
  case (Cons V Vs)
  note al = Cons.prems
  show ?case
  proof (cases "validPC s V \<and> \<not> isJumpTarget s V")
    case False
    then have skip: "findCodePointers (V # Vs) s = findCodePointers Vs s"
      using al by (simp add: isInterestingPC_eq)
    from Cons.IH [OF al] obtain s' where "findCodePointers Vs s = Inr s'" "harvested Vs s s'"
      by blast
    with skip False harvested_skip [of Vs s s' V] show ?thesis by simp
  next
    case True
    then have "\<exists>B s1. getBlockAt V False s = Inr (Some B, s1) \<and>
           map_of (JumpTargets s1) = (map_of (JumpTargets s))(V \<mapsto> B) \<and>
           ExecutableRanges s1 = ExecutableRanges s \<and>
           instructionAlignment s1 = instructionAlignment s \<and>
           ReliablePCs s1 = ReliablePCs s"
      using getBlockAt_new_unreliable [of s V] by simp
    then obtain B s1 where s1:
      "getBlockAt V False s = Inr (Some B, s1)"
      "map_of (JumpTargets s1) = (map_of (JumpTargets s))(V \<mapsto> B)"
      "ExecutableRanges s1 = ExecutableRanges s"
      "instructionAlignment s1 = instructionAlignment s"
      "ReliablePCs s1 = ReliablePCs s"
      by blast
    have step: "findCodePointers (V # Vs) s = findCodePointers Vs s1"
      using True al s1(1) by (simp add: isInterestingPC_eq)
    have al1: "instructionAlignment s1 \<noteq> 0" using al s1(4) by simp
    from Cons.IH [OF al1] obtain s' where
      s': "findCodePointers Vs s1 = Inr s'" "harvested Vs s1 s'"
      by blast
    have "harvested (V # Vs) s s'"
      using harvested_step [OF s'(2) _ _ s1(2,3,4,5)] True by simp
    with step s'(1) show ?thesis by simp
  qed
qed

text \<open>
  A harvest of four values on the empty registry: one is registered, a misaligned
  one, one outside the segment and a repetition are not.
\<close>

lemma findCodePointers_example:
  "findCodePointers [0x1004, 0x1002, 0x2000, 0x1004] one_segment =
     Inr (one_segment\<lparr>TheFunction := [\<lparr>insts = [], fallthrough = None\<rparr>],
            JumpTargets := [(0x1004, 0)], Unexplored := [(0x1004, 0)]\<rparr>)"
  by (simp add: one_segment_def isInterestingPC_def isExecutableAddress_def
      isInstructionAligned_def count_map_def getBlockAt_def splitOffset_def registerBlock_def)

text \<open>
  C7.  A harvest over the scanned \<open>Values\<close> returns, and a value for which
  \<open>isInterestingPC\<close> is false (not executable, not aligned, or already
  registered) is skipped without a call of \<open>getBlockAt\<close>.  Every address the
  harvest adds to the registry is one of the values, is executable and aligned, and
  passed \<open>isInterestingPC\<close>; every value that passes it is registered; the
  entries that were there stay as they were; and no address becomes reliable.
\<close>

theorem findCodePointers_exclusion:
  assumes "instructionAlignment s \<noteq> 0"
  shows "\<exists>s'. findCodePointers Values s = Inr s' \<and>
     (\<forall>PC. isJumpTarget s' PC \<and> \<not> isJumpTarget s PC \<longrightarrow>
        PC \<in> set Values \<and> isExecutableAddress s PC \<and>
        isInstructionAligned s PC = Inr True \<and> isInterestingPC s PC = Inr True) \<and>
     (\<forall>PC. PC \<in> set Values \<and> isInterestingPC s PC = Inr True \<longrightarrow> isJumpTarget s' PC) \<and>
     (\<forall>PC. isJumpTarget s PC \<longrightarrow> map_of (JumpTargets s') PC = map_of (JumpTargets s) PC) \<and>
     (\<forall>V. isInterestingPC s V = Inr False \<longrightarrow>
        findCodePointers (V # Values) s = findCodePointers Values s) \<and>
     ReliablePCs s' = ReliablePCs s"
proof -
  from findCodePointers_harvested [OF assms] obtain s' where
    s': "findCodePointers Values s = Inr s'" and h: "harvested Values s s'"
    by blast
  have i: "\<And>PC. isInterestingPC s PC = Inr True \<longleftrightarrow> validPC s PC \<and> \<not> isJumpTarget s PC"
    using assms by (simp add: isInterestingPC_eq)
  have a: "\<forall>PC. isJumpTarget s' PC \<and> \<not> isJumpTarget s PC \<longrightarrow>
        PC \<in> set Values \<and> isExecutableAddress s PC \<and>
        isInstructionAligned s PC = Inr True \<and> isInterestingPC s PC = Inr True"
    using h unfolding i harvested_def validPC_def by blast
  have b: "\<forall>PC. PC \<in> set Values \<and> isInterestingPC s PC = Inr True \<longrightarrow> isJumpTarget s' PC"
    using h unfolding i harvested_def by blast
  have c: "\<forall>PC. isJumpTarget s PC \<longrightarrow> map_of (JumpTargets s') PC = map_of (JumpTargets s) PC"
    using h unfolding harvested_def by blast
  have d: "\<forall>V. isInterestingPC s V = Inr False \<longrightarrow>
        findCodePointers (V # Values) s = findCodePointers Values s"
    by simp
  have e: "ReliablePCs s' = ReliablePCs s"
    using h unfolding harvested_def by blast
  from s' a b c d e show ?thesis by blast
qed

theorem findCodePointers_exclusion_witness:
  "\<exists>s'. findCodePointers [0x1004, 0x1002, 0x2000, 0x1004] one_segment = Inr s' \<and>
     isJumpTarget s' 0x1004 \<and> \<not> isJumpTarget s' 0x1002 \<and> \<not> isJumpTarget s' 0x2000 \<and>
     ReliablePCs s' = {}"
proof -
  have al: "instructionAlignment one_segment \<noteq> 0" by (simp add: one_segment_def)
  have jt: "\<And>PC. \<not> isJumpTarget one_segment PC"
    by (simp add: isJumpTarget_def count_map_def one_segment_def)
  have good: "isInterestingPC one_segment 0x1004 = Inr True"
    by (simp add: isInterestingPC_def isExecutableAddress_def isInstructionAligned_def
        count_map_def one_segment_def)
  have odd: "isInterestingPC one_segment 0x1002 \<noteq> Inr True"
    by (simp add: isInterestingPC_def isExecutableAddress_def isInstructionAligned_def
        count_map_def one_segment_def)
  have far: "isInterestingPC one_segment 0x2000 \<noteq> Inr True"
    by (simp add: isInterestingPC_def isExecutableAddress_def isInstructionAligned_def
        count_map_def one_segment_def)
  have re: "ReliablePCs one_segment = {}" by (simp add: one_segment_def)
  from findCodePointers_exclusion [OF al, of "[0x1004, 0x1002, 0x2000, 0x1004]"]
  obtain s' where s': "findCodePointers [0x1004, 0x1002, 0x2000, 0x1004] one_segment = Inr s'"
    and new: "\<And>PC. isJumpTarget s' PC \<and> \<not> isJumpTarget one_segment PC \<Longrightarrow>
        isInterestingPC one_segment PC = Inr True"
    and reg: "\<And>PC. PC \<in> set [0x1004, 0x1002, 0x2000, 0x1004] \<and>
        isInterestingPC one_segment PC = Inr True \<Longrightarrow> isJumpTarget s' PC"
    and rel: "ReliablePCs s' = ReliablePCs one_segment"
    by blast
  have "isJumpTarget s' 0x1004" using reg [of "0x1004"] good by simp
  moreover have "\<not> isJumpTarget s' 0x1002" using new [of "0x1002"] jt odd by blast
  moreover have "\<not> isJumpTarget s' 0x2000" using new [of "0x2000"] jt far by blast
  ultimately show ?thesis using s' rel re by simp
qed

end
